theory Spec2Isabelle
  imports Main "HOL-Library.AList" "HOL-Library.Char_ord" "HOL-Library.List_Lexorder"
    "HOL-Library.Multiset"
begin

section \<open>Strings, instants and maps as the program uses them\<close>

text \<open>
  A Go string is a sequence of bytes, hence a \<^typ>\<open>string\<close>. The functions of package
  \<^verbatim>\<open>strings\<close> that main.go calls are written out with Go's argument order. Every
  separator the program passes to \<^verbatim>\<open>strings.Split\<close> is a single byte (newline, space,
  comma), so \<open>Split\<close> takes that byte.
\<close>

definition HasPrefix :: "string \<Rightarrow> string \<Rightarrow> bool" where
  "HasPrefix s prefix = (length prefix \<le> length s \<and> take (length prefix) s = prefix)"

definition HasSuffix :: "string \<Rightarrow> string \<Rightarrow> bool" where
  "HasSuffix s suffix =
     (length suffix \<le> length s \<and> drop (length s - length suffix) s = suffix)"

fun Contains :: "string \<Rightarrow> string \<Rightarrow> bool" where
  "Contains [] substr = (substr = [])"
| "Contains (c # cs) substr = (HasPrefix (c # cs) substr \<or> Contains cs substr)"

fun Split :: "string \<Rightarrow> char \<Rightarrow> string list" where
  "Split [] sep = [[]]"
| "Split (c # cs) sep =
     (if c = sep then [] # Split cs sep
      else (case Split cs sep of [] \<Rightarrow> [[c]] | w # ws \<Rightarrow> (c # w) # ws))"

fun Join :: "string list \<Rightarrow> string \<Rightarrow> string" where
  "Join [] sep = []"
| "Join [x] sep = x"
| "Join (x # y # ys) sep = x @ sep @ Join (y # ys) sep"

text \<open>The slice expression \<^verbatim>\<open>s[a:b]\<close>; Go panics unless \<open>a \<le> b \<le> len(s)\<close>.\<close>

definition slice :: "string \<Rightarrow> nat \<Rightarrow> nat \<Rightarrow> string" where
  "slice s a b = take (b - a) (drop a s)"

text \<open>
  A \<^verbatim>\<open>time.Time\<close> is an instant; the program only compares instants, formats them and
  parses them. An instant is its number of nanoseconds since the Unix epoch.
\<close>

type_synonym time = int

definition After :: "time \<Rightarrow> time \<Rightarrow> bool" where
  "After t u = (u < t)"

definition Before :: "time \<Rightarrow> time \<Rightarrow> bool" where
  "Before t u = (t < u)"

text \<open>
  A Go map is an association list with distinct keys; the order of the list is the order
  in which one \<^verbatim>\<open>range\<close> loop happens to visit the map, which Go leaves unspecified.
  Reading a missing key yields the zero value of the value type.
\<close>

definition lookupOr :: "'v \<Rightarrow> ('k \<times> 'v) list \<Rightarrow> 'k \<Rightarrow> 'v" where
  "lookupOr zero m k = (case map_of m k of None \<Rightarrow> zero | Some v \<Rightarrow> v)"

section \<open>Commit Collector (main, lines 353-414)\<close>

text \<open>
  The fields of a \<^verbatim>\<open>github.RepositoryCommit\<close> that the loop reads, each through the
  nil-safe getters of go-github (a missing value reads as the zero value):
  \<open>parents\<close> is \<^verbatim>\<open>commit.GetCommit().Parents\<close> (the SHAs),
  \<open>authorLogin\<close> and \<open>authorName\<close> are \<^verbatim>\<open>commit.GetAuthor().GetLogin()\<close> and
  \<^verbatim>\<open>.GetName()\<close>, \<open>commitAuthorEmail\<close> and \<open>commitAuthorDate\<close> are
  \<^verbatim>\<open>commit.GetCommit().GetAuthor().GetEmail()\<close> and \<^verbatim>\<open>.GetDate()\<close>, and
  \<open>commitMessage\<close> is \<^verbatim>\<open>commit.GetCommit().GetMessage()\<close>.
\<close>

record repositoryCommit =
  parents :: "string list"
  authorLogin :: string
  authorName :: string
  commitAuthorEmail :: string
  commitAuthorDate :: time
  commitMessage :: string

text \<open>
  The chain of \<^verbatim>\<open>continue\<close> guards of lines 376-396, in the source's order:
  \<open>skipCommit\<close> is true when one of them fires.
\<close>

definition skipCommit ::
  "string set \<Rightarrow> string set \<Rightarrow> string set \<Rightarrow> repositoryCommit \<Rightarrow> bool" where
  "skipCommit organizationMembers emails names commit =
     (if length (parents commit) > 0 then True
      else if authorLogin commit = [] then True
      else if authorLogin commit \<in> organizationMembers then True
      else if Contains (commitAuthorEmail commit) ''@cockroachlabs.com'' then True
      else if HasPrefix (commitMessage commit) ''Merge pull request '' then True
      else if authorName commit \<in> names then True
      else if commitAuthorEmail commit \<in> emails then True
      else False)"

text \<open>
  One iteration of the loop body on the map \<open>userTimes\<close> (lines 376-407): a commit
  that survives the guards has its author date appended to its login's list. The map
  \<open>users\<close> of line 403 is written and never read, and is left out.
\<close>

definition collectCommit ::
  "string set \<Rightarrow> string set \<Rightarrow> string set \<Rightarrow> repositoryCommit \<Rightarrow>
   (string \<times> time list) list \<Rightarrow> (string \<times> time list) list" where
  "collectCommit organizationMembers emails names commit userTimes =
     (if skipCommit organizationMembers emails names commit then userTimes
      else AList.update (authorLogin commit)
             (lookupOr [] userTimes (authorLogin commit) @ [commitAuthorDate commit])
             userTimes)"

text \<open>The loop over all the commits of all pages of all repositories.\<close>

fun collectCommits ::
  "string set \<Rightarrow> string set \<Rightarrow> string set \<Rightarrow> repositoryCommit list \<Rightarrow>
   (string \<times> time list) list \<Rightarrow> (string \<times> time list) list" where
  "collectCommits organizationMembers emails names [] userTimes = userTimes"
| "collectCommits organizationMembers emails names (commit # commits) userTimes =
     collectCommits organizationMembers emails names commits
       (collectCommit organizationMembers emails names commit userTimes)"

section \<open>Filter Rules Provider (getOrganizationEmailsAndNamesFromAuthors, lines 130-157)\<close>

text \<open>
  The sets \<^verbatim>\<open>map[string]struct{}\<close> are sets of strings. The loop over the fields of
  one line (lines 145-155) carries the index \<open>i\<close>, the flag \<open>seenEmail\<close> and the two
  sets; \<open>fields'\<close> is the whole slice \<^verbatim>\<open>fields\<close>, kept for \<^verbatim>\<open>fields[:i]\<close>.
\<close>

fun scanFields ::
  "string list \<Rightarrow> nat \<Rightarrow> string list \<Rightarrow> bool \<Rightarrow> string set \<Rightarrow> string set \<Rightarrow>
   string set \<times> string set" where
  "scanFields fields' i [] seenEmail retEmails retLogins = (retEmails, retLogins)"
| "scanFields fields' i (field # rest) seenEmail retEmails retLogins =
     (if HasPrefix field ''<'' \<and> HasSuffix field ''>'' then
        scanFields fields' (i + 1) rest True
          (insert (slice field 1 (length field - 1)) retEmails)
          (if \<not> seenEmail then insert (Join (take i fields') '' '') retLogins else retLogins)
      else scanFields fields' (i + 1) rest seenEmail retEmails retLogins)"

text \<open>The loop over the lines (lines 137-156), with its two \<^verbatim>\<open>continue\<close> guards.\<close>

fun scanLines :: "string list \<Rightarrow> string set \<Rightarrow> string set \<Rightarrow> string set \<times> string set" where
  "scanLines [] retEmails retLogins = (retEmails, retLogins)"
| "scanLines (line # lines) retEmails retLogins =
     (if HasPrefix line ''#'' then scanLines lines retEmails retLogins
      else if \<not> Contains line ''@cockroachlabs.com'' then scanLines lines retEmails retLogins
      else (case scanFields (Split line CHR '' '') 0 (Split line CHR '' '') False
                   retEmails retLogins of
              (retEmails', retLogins') \<Rightarrow> scanLines lines retEmails' retLogins'))"

text \<open>
  The function, from the contents of the roster file on (fetching the file is the API
  client's work): it returns \<open>(retEmails, retLogins)\<close>.
\<close>

definition getOrganizationEmailsAndNamesFromAuthors :: "string \<Rightarrow> string set \<times> string set" where
  "getOrganizationEmailsAndNamesFromAuthors contents =
     scanLines (Split contents (CHR 0x0A)) {} {}"

section \<open>Aggregator and formatter (formatContributors, lines 160-201)\<close>

record user =
  userURL :: string
  login :: string
  name :: string
  times' :: "time list"

record toSortEntry =
  u' :: user
  count' :: nat

definition zeroUser :: user where
  "zeroUser = \<lparr>userURL = [], login = [], name = [], times' = []\<rparr>"

text \<open>
  The counting loops of lines 168-175. A count is a Go \<^verbatim>\<open>int\<close>; it never exceeds the
  number of timestamps held in memory, so it never wraps and is a \<^typ>\<open>nat\<close> here.
\<close>

fun countTimes ::
  "string \<Rightarrow> time list \<Rightarrow> time \<Rightarrow> time \<Rightarrow> (string \<times> nat) list \<Rightarrow> (string \<times> nat) list" where
  "countTimes k [] from to timesByUser = timesByUser"
| "countTimes k (t # ts) from to timesByUser =
     countTimes k ts from to
       (if After t from \<and> Before t to
        then AList.update k (lookupOr 0 timesByUser k + 1) timesByUser
        else timesByUser)"

fun countUsers ::
  "(string \<times> user) list \<Rightarrow> time \<Rightarrow> time \<Rightarrow> (string \<times> nat) list \<Rightarrow> (string \<times> nat) list" where
  "countUsers [] from to timesByUser = timesByUser"
| "countUsers ((k, obj) # rest) from to timesByUser =
     countUsers rest from to (countTimes k (times' obj) from to timesByUser)"

text \<open>Lines 180-183: one entry per key of \<open>timesByUser\<close>.\<close>

definition toSortOf :: "(string \<times> user) list \<Rightarrow> (string \<times> nat) list \<Rightarrow> toSortEntry list" where
  "toSortOf users timesByUser =
     map (\<lambda>(k, c). \<lparr>u' = lookupOr zeroUser users k, count' = c\<rparr>) timesByUser"

text \<open>The comparator handed to \<^verbatim>\<open>sort.Slice\<close> (lines 184-189).\<close>

definition entryLess :: "toSortEntry \<Rightarrow> toSortEntry \<Rightarrow> bool" where
  "entryLess a b =
     (if count' a = count' b then login (u' a) < login (u' b) else count' a > count' b)"

text \<open>
  \<^verbatim>\<open>sort.Slice\<close> promises a permutation of the slice in which no element is \<open>less\<close>
  than an earlier one, and no more (it is not stable). \<open>sortSlice\<close> is one such sort, by
  insertion.
\<close>

fun insertBy :: "('a \<Rightarrow> 'a \<Rightarrow> bool) \<Rightarrow> 'a \<Rightarrow> 'a list \<Rightarrow> 'a list" where
  "insertBy lt x [] = [x]"
| "insertBy lt x (y # ys) = (if lt x y then x # y # ys else y # insertBy lt x ys)"

fun sortSlice :: "('a \<Rightarrow> 'a \<Rightarrow> bool) \<Rightarrow> 'a list \<Rightarrow> 'a list" where
  "sortSlice lt [] = []"
| "sortSlice lt (x # xs) = insertBy lt x (sortSlice lt xs)"

text \<open>The verb \<^verbatim>\<open>%d\<close> on a count: its decimal digits.\<close>

fun decimal :: "nat \<Rightarrow> string" where
  "decimal n =
     (if n < 10 then [''0123456789'' ! n]
      else decimal (n div 10) @ [''0123456789'' ! (n mod 10)])"

declare decimal.simps [simp del]

definition renderEntry :: "toSortEntry \<Rightarrow> string" where
  "renderEntry entry =
     ''['' @ name (u' entry) @ '']('' @ userURL (u' entry) @ '') ('' @
     decimal (count' entry) @ '')''"

text \<open>The rendering loop of lines 191-199, on \<open>(ret, total')\<close>.\<close>

fun renderLoop :: "toSortEntry list \<Rightarrow> string list \<Rightarrow> nat \<Rightarrow> string list \<times> nat" where
  "renderLoop [] ret total' = (ret, total')"
| "renderLoop (entry # rest) ret total' =
     renderLoop rest (ret @ [renderEntry entry]) (total' + count' entry)"

definition renderBlock :: "toSortEntry list \<Rightarrow> string" where
  "renderBlock toSort =
     (case renderLoop toSort [] 0 of
        (ret, total') \<Rightarrow>
          decimal (length toSort) @ '' contributors, '' @ decimal total' @ '' commits'' @
          [CHR 0x0A, CHR 0x0A] @ Join ret '', '')"

text \<open>The slice \<open>toSort\<close> after line 189, and the function.\<close>

definition rankContributors :: "(string \<times> user) list \<Rightarrow> time \<Rightarrow> time \<Rightarrow> toSortEntry list" where
  "rankContributors users from to =
     sortSlice entryLess (toSortOf users (countUsers users from to []))"

definition formatContributors :: "(string \<times> user) list \<Rightarrow> time \<Rightarrow> time \<Rightarrow> string" where
  "formatContributors users from to = renderBlock (rankContributors users from to)"

text \<open>
  What Go leaves open in one call: the order in which \<open>users\<close> is visited, the order in
  which \<open>timesByUser\<close> is visited, and which sorted permutation \<^verbatim>\<open>sort.Slice\<close>
  returns. \<open>formatContributorsRun users from to out\<close> holds when some choice of the three
  makes the call return \<open>out\<close>.
\<close>

inductive formatContributorsRun ::
  "(string \<times> user) list \<Rightarrow> time \<Rightarrow> time \<Rightarrow> string \<Rightarrow> bool" where
  run: "mset visited = mset users \<Longrightarrow>
        mset timesByUser = mset (countUsers visited from to []) \<Longrightarrow>
        mset toSort = mset (toSortOf users timesByUser) \<Longrightarrow>
        sorted_wrt (\<lambda>a b. \<not> entryLess b a) toSort \<Longrightarrow>
        formatContributorsRun users from to (renderBlock toSort)"

section \<open>Bounded Enricher (intermediateOutputToOutput, lines 213-276)\<close>

text \<open>
  The process panics on a document that does not unmarshal, on a failed profile lookup
  and on a timestamp that does not parse; a panic is the \<open>Inl\<close> of a result. The calls
  into the API client and into the standard library are parameters, \<open>None\<close> standing for
  a returned error: \<open>usersGet\<close> is \<^verbatim>\<open>ghClient.Users.Get\<close>, \<open>timeParse\<close> is
  \<^verbatim>\<open>time.Parse(time.RFC3339, _)\<close>, \<open>timeFormat\<close> is \<^verbatim>\<open>Format(time.RFC3339)\<close>, and
  \<open>jsonMarshal\<close>, \<open>jsonUnmarshal\<close> are \<^verbatim>\<open>json.Marshal\<close> and \<^verbatim>\<open>json.Unmarshal\<close> at the
  type \<^verbatim>\<open>map[string][]string\<close>.
\<close>

datatype error = UnmarshalError | UsersGetError | TimeParseError

text \<open>What the program reads of a \<^verbatim>\<open>github.User\<close>: \<^verbatim>\<open>GetName()\<close> and \<^verbatim>\<open>GetHTMLURL()\<close>.\<close>

record ghUser =
  ghName :: string
  ghHTMLURL :: string

text \<open>The parsing loop of lines 243-250.\<close>

fun parseTimes :: "(string \<Rightarrow> time option) \<Rightarrow> string list \<Rightarrow> time list \<Rightarrow> error + time list" where
  "parseTimes timeParse [] ts = Inr ts"
| "parseTimes timeParse (tIn # timesIn) ts =
     (case timeParse tIn of
        None \<Rightarrow> Inl TimeParseError
      | Some t \<Rightarrow> parseTimes timeParse timesIn (ts @ [t]))"

text \<open>The body of one task (lines 238-260): the value it sends on \<open>resultCh\<close>.\<close>

definition lookupUser ::
  "(string \<Rightarrow> ghUser option) \<Rightarrow> (string \<Rightarrow> time option) \<Rightarrow> string \<Rightarrow> string list \<Rightarrow>
   error + user" where
  "lookupUser usersGet timeParse k timesIn =
     (case usersGet k of
        None \<Rightarrow> Inl UsersGetError
      | Some gh \<Rightarrow>
          (case parseTimes timeParse timesIn [] of
             Inl e \<Rightarrow> Inl e
           | Inr ts \<Rightarrow>
               Inr \<lparr>userURL = ghHTMLURL gh, login = k,
                    name = (if ghName gh = [] then k else ghName gh), times' = ts\<rparr>))"

text \<open>All the tasks, one for each key of \<open>usersIn\<close>; a panic in any of them ends the run.\<close>

fun lookupUsers ::
  "(string \<Rightarrow> ghUser option) \<Rightarrow> (string \<Rightarrow> time option) \<Rightarrow> (string \<times> string list) list \<Rightarrow>
   error + user list" where
  "lookupUsers usersGet timeParse [] = Inr []"
| "lookupUsers usersGet timeParse ((k, timesIn) # rest) =
     (case lookupUser usersGet timeParse k timesIn of
        Inl e \<Rightarrow> Inl e
      | Inr x \<Rightarrow>
          (case lookupUsers usersGet timeParse rest of
             Inl e \<Rightarrow> Inl e
           | Inr xs \<Rightarrow> Inr (x # xs)))"

text \<open>Lines 225-228: the set of the comma-separated logins of the flag.\<close>

definition blocklistedOf :: "string \<Rightarrow> string set" where
  "blocklistedOf flagBlocklist = set (Split flagBlocklist CHR '','')"

text \<open>
  The collation loop of lines 267-276 over the values received from \<open>resultCh\<close>, in the
  order in which they arrive, building the map \<open>users\<close>.
\<close>

fun collate ::
  "string set \<Rightarrow> string set \<Rightarrow> user list \<Rightarrow> (string \<times> user) list \<Rightarrow> (string \<times> user) list" where
  "collate blocklisted blocklistedNames [] users = users"
| "collate blocklisted blocklistedNames (x # results) users =
     (if login x \<in> blocklisted then collate blocklisted blocklistedNames results users
      else if name x \<in> blocklistedNames then collate blocklisted blocklistedNames results users
      else collate blocklisted blocklistedNames results (AList.update (login x) x users))"

section \<open>Checkpoint Store (main, lines 420-432; intermediateOutputToOutput, lines 209-250)\<close>

text \<open>The loops of lines 420-425, from \<open>userTimes\<close> to \<open>commitTimes\<close>.\<close>

fun appendTimes ::
  "(time \<Rightarrow> string) \<Rightarrow> string \<Rightarrow> time list \<Rightarrow> (string \<times> string list) list \<Rightarrow>
   (string \<times> string list) list" where
  "appendTimes timeFormat k [] commitTimes = commitTimes"
| "appendTimes timeFormat k (t # ts) commitTimes =
     appendTimes timeFormat k ts
       (AList.update k (lookupOr [] commitTimes k @ [timeFormat t]) commitTimes)"

fun buildCommitTimes ::
  "(time \<Rightarrow> string) \<Rightarrow> (string \<times> time list) list \<Rightarrow> (string \<times> string list) list \<Rightarrow>
   (string \<times> string list) list" where
  "buildCommitTimes timeFormat [] commitTimes = commitTimes"
| "buildCommitTimes timeFormat ((k, ts) # rest) commitTimes =
     buildCommitTimes timeFormat rest (appendTimes timeFormat k ts commitTimes)"

text \<open>Storing: the document written to the intermediate output file.\<close>

definition storeCheckpoint ::
  "(time \<Rightarrow> string) \<Rightarrow> ((string \<times> string list) list \<Rightarrow> 'doc) \<Rightarrow> (string \<times> time list) list \<Rightarrow>
   'doc" where
  "storeCheckpoint timeFormat jsonMarshal userTimes =
     jsonMarshal (buildCommitTimes timeFormat userTimes [])"

text \<open>
  Loading: the document is unmarshalled into \<open>usersIn\<close> and the timestamps of each login
  are parsed by the loop of lines 243-250.
\<close>

fun parseUsers ::
  "(string \<Rightarrow> time option) \<Rightarrow> (string \<times> string list) list \<Rightarrow> error + (string \<times> time list) list" where
  "parseUsers timeParse [] = Inr []"
| "parseUsers timeParse ((k, timesIn) # rest) =
     (case parseTimes timeParse timesIn [] of
        Inl e \<Rightarrow> Inl e
      | Inr ts \<Rightarrow>
          (case parseUsers timeParse rest of
             Inl e \<Rightarrow> Inl e
           | Inr r \<Rightarrow> Inr ((k, ts) # r)))"

definition loadCheckpoint ::
  "('doc \<Rightarrow> (string \<times> string list) list option) \<Rightarrow> (string \<Rightarrow> time option) \<Rightarrow> 'doc \<Rightarrow>
   error + (string \<times> time list) list" where
  "loadCheckpoint jsonUnmarshal timeParse doc =
     (case jsonUnmarshal doc of
        None \<Rightarrow> Inl UnmarshalError
      | Some usersIn \<Rightarrow> parseUsers timeParse usersIn)"

text \<open>An instant cut down to its whole second.\<close>

definition truncateSecond :: "time \<Rightarrow> time" where
  "truncateSecond t = t - t mod 1000000000"

section \<open>The admission pool of the enrichment phase (lines 219-237)\<close>

text \<open>
  The channel \<open>rateLimit\<close> has capacity \<open>userRateLimit\<close> and starts full. A task first
  receives from it (line 237), then looks its login up, and sends a value back in its
  deferred function (line 235). Channel operations are atomic, so a run of the phase is an
  interleaving of these steps: a receive needs a value in the channel, a send needs room.
\<close>

definition userRateLimit :: nat where
  "userRateLimit = 20"

datatype phase = Waiting | Running | Finished

record pool =
  rateLimit :: nat
  tasks :: "phase list"

inductive poolStep :: "pool \<Rightarrow> pool \<Rightarrow> bool" where
  acquire: "i < length (tasks s) \<Longrightarrow> tasks s ! i = Waiting \<Longrightarrow> 0 < rateLimit s \<Longrightarrow>
            poolStep s \<lparr>rateLimit = rateLimit s - 1, tasks = (tasks s)[i := Running]\<rparr>"
| release: "i < length (tasks s) \<Longrightarrow> tasks s ! i = Running \<Longrightarrow> rateLimit s < userRateLimit \<Longrightarrow>
            poolStep s \<lparr>rateLimit = rateLimit s + 1, tasks = (tasks s)[i := Finished]\<rparr>"

definition poolStart :: "nat \<Rightarrow> pool" where
  "poolStart n = \<lparr>rateLimit = userRateLimit, tasks = replicate n Waiting\<rparr>"

inductive poolReachable :: "nat \<Rightarrow> pool \<Rightarrow> bool" for n :: nat where
  start: "poolReachable n (poolStart n)"
| step: "poolReachable n s \<Longrightarrow> poolStep s s' \<Longrightarrow> poolReachable n s'"

definition running :: "pool \<Rightarrow> nat" where
  "running s = length (filter (\<lambda>p. p = Running) (tasks s))"

section \<open>Names for the statements\<close>

text \<open>
  The test of line 147 on a field, and the email \<^verbatim>\<open>field[1 : len(field)-1]\<close> of line 152.
\<close>

definition isEmailField :: "string \<Rightarrow> bool" where
  "isEmailField field = (HasPrefix field ''<'' \<and> HasSuffix field ''>'')"

definition emailOf :: "string \<Rightarrow> string" where
  "emailOf field = slice field 1 (length field - 1)"

text \<open>Three enriched users for the scenarios of the specification.\<close>

definition alice :: user where
  "alice = \<lparr>userURL = ''https://github.com/alice'', login = ''alice'', name = ''Alice'',
            times' = [150, 160]\<rparr>"

definition bob :: user where
  "bob = \<lparr>userURL = ''https://github.com/bob'', login = ''bob'', name = ''Bob'',
          times' = [101, 199]\<rparr>"

definition spammer :: user where
  "spammer = \<lparr>userURL = ''https://github.com/spammer'', login = ''spammer'', name = ''Spam'',
              times' = [110, 120, 130, 140, 150, 160, 170, 180, 190, 195]\<rparr>"

section \<open>The Commit Collector's guards\<close>




text \<open>
  Every record the collector builds is a map (its keys are distinct) in which each login
  has at least one timestamp.
\<close>

lemma set_update_subset: "set (AList.update k v al) \<subseteq> insert (k, v) (set al)"
  by (induction al) auto

lemma collectCommits_record:
  "distinct (map fst userTimes) \<Longrightarrow> \<forall>(k, ts)\<in>set userTimes. ts \<noteq> [] \<Longrightarrow>
   distinct (map fst (collectCommits organizationMembers emails names commits userTimes)) \<and>
   (\<forall>(k, ts)\<in>set (collectCommits organizationMembers emails names commits userTimes).
      ts \<noteq> [])"
proof (induction commits arbitrary: userTimes)
  case Nil
  then show ?case by simp
next
  case (Cons commit commits)
  let ?next = "collectCommit organizationMembers emails names commit userTimes"
  have 1: "distinct (map fst ?next)"
    using Cons.prems(1) by (simp add: collectCommit_def distinct_update)
  have 2: "\<forall>(k, ts)\<in>set ?next. ts \<noteq> []"
  proof (cases "skipCommit organizationMembers emails names commit")
    case True
    then show ?thesis using Cons.prems(2) by (simp add: collectCommit_def)
  next
    case False
    then show ?thesis
      using Cons.prems(2)
        set_update_subset [of "authorLogin commit"
          "lookupOr [] userTimes (authorLogin commit) @ [commitAuthorDate commit]" userTimes]
      by (auto simp: collectCommit_def)
  qed
  show ?case using Cons.IH [OF 1 2] by simp
qed

section \<open>The roster: emails and names\<close>

text \<open>
  The slice of line 152 never panics: a field that starts with \<open><\<close> and ends with \<open>>\<close>
  has at least two bytes.
\<close>

lemma isEmailField_length:
  "isEmailField field \<Longrightarrow> 1 \<le> length field - 1 \<and> length field - 1 \<le> length field"
  by (cases field; cases "tl field") (auto simp: isEmailField_def HasPrefix_def HasSuffix_def)

lemma scanFields_Cons:
  "scanFields fields' i (field # rest) seenEmail retEmails retLogins =
     (if isEmailField field then
        scanFields fields' (i + 1) rest True (insert (emailOf field) retEmails)
          (if \<not> seenEmail then insert (Join (take i fields') '' '') retLogins else retLogins)
      else scanFields fields' (i + 1) rest seenEmail retEmails retLogins)"
  by (simp add: isEmailField_def emailOf_def)

text \<open>
  What the loop over the fields of a line leaves: every email field adds its email; the
  name is added once, at the first email field, and is the join of the fields before it.
\<close>

lemma scanFields_eq:
  "scanFields fields' i rest seenEmail retEmails retLogins =
     (retEmails \<union> emailOf ` {field \<in> set rest. isEmailField field},
      if seenEmail \<or> \<not> (\<exists>field\<in>set rest. isEmailField field) then retLogins
      else insert (Join (take (i + length (takeWhile (\<lambda>field. \<not> isEmailField field) rest)) fields')
                     '' '') retLogins)"
proof (induction rest arbitrary: i seenEmail retEmails retLogins)
  case Nil
  then show ?case by simp
next
  case (Cons field rest)
  show ?case
  proof (cases "isEmailField field")
    case True
    have "{f \<in> set (field # rest). isEmailField f} = insert field {f \<in> set rest. isEmailField f}"
      using True by auto
    then show ?thesis using True
      by (simp add: Cons.IH scanFields_Cons del: scanFields.simps)
  next
    case False
    have "{f \<in> set (field # rest). isEmailField f} = {f \<in> set rest. isEmailField f}"
      using False by auto
    then show ?thesis using False
      by (simp add: Cons.IH scanFields_Cons del: scanFields.simps)
  qed
qed

lemma scanLines_step:
  "scanLines (line # lines) retEmails retLogins =
     (if HasPrefix line ''#'' \<or> \<not> Contains line ''@cockroachlabs.com''
      then scanLines lines retEmails retLogins
      else scanLines lines
             (retEmails \<union> emailOf ` {field \<in> set (Split line CHR '' ''). isEmailField field})
             (if \<exists>field\<in>set (Split line CHR '' ''). isEmailField field
              then insert (Join (takeWhile (\<lambda>field. \<not> isEmailField field) (Split line CHR '' ''))
                             '' '') retLogins
              else retLogins))"
proof -
  have "take (length (takeWhile P xs)) xs = takeWhile P xs" for P and xs :: "string list"
    by (induction xs) simp_all
  then show ?thesis by (simp add: scanFields_eq)
qed

lemma scanLines_emails:
  "fst (scanLines lines retEmails retLogins) =
     retEmails \<union>
     {emailOf field | line field.
        line \<in> set lines \<and> \<not> HasPrefix line ''#'' \<and> Contains line ''@cockroachlabs.com'' \<and>
        field \<in> set (Split line CHR '' '') \<and> isEmailField field}"
proof (induction lines arbitrary: retEmails retLogins)
  case Nil
  then show ?case by simp
next
  case (Cons line lines)
  show ?case
    unfolding scanLines_step
    by (auto simp: Cons.IH)
qed

text \<open>
  C2 (as the code has it). The extracted email set is exactly the set of the
  angle-bracket fields, brackets removed, of the lines that are kept: the lines that do not
  start with \<open>#\<close> and contain \<open>@cockroachlabs.com\<close>. So every extracted email stands on
  a line that contains the internal domain, and a skipped line adds no email. The test is
  on the line, not on the email.
\<close>

theorem extracted_emails:
  "fst (getOrganizationEmailsAndNamesFromAuthors contents) =
     {emailOf field | line field.
        line \<in> set (Split contents (CHR 0x0A)) \<and>
        \<not> HasPrefix line ''#'' \<and> Contains line ''@cockroachlabs.com'' \<and>
        field \<in> set (Split line CHR '' '') \<and> isEmailField field}"
  by (simp add: getOrganizationEmailsAndNamesFromAuthors_def scanLines_emails)

text \<open>
  The theorem on a roster of a commented line, a line of the internal domain and a line
  without it: the one email of the kept line is extracted.
\<close>

theorem extracted_emails_witness:
  "{emailOf field | line field.
      line \<in> set (Split (''# Old <old@cockroachlabs.com>'' @ [CHR 0x0A] @
                         ''Jane Doe <jane@cockroachlabs.com>'' @ [CHR 0x0A] @
                         ''Bob <bob@gmail.com>'') (CHR 0x0A)) \<and>
      \<not> HasPrefix line ''#'' \<and> Contains line ''@cockroachlabs.com'' \<and>
      field \<in> set (Split line CHR '' '') \<and> isEmailField field} =
   {''jane@cockroachlabs.com''}"
  unfolding extracted_emails [symmetric]
  by (simp add: getOrganizationEmailsAndNamesFromAuthors_def HasPrefix_def HasSuffix_def
        slice_def)

text \<open>
  C2 as the specification states it fails: on a kept line with two addresses, the address
  without the internal domain is extracted too.
\<close>

theorem email_without_domain_counterexample:
  "''jane@gmail.com'' \<in> fst (getOrganizationEmailsAndNamesFromAuthors
      ''Jane Doe <jane@gmail.com> <jane@cockroachlabs.com>'') \<and>
   \<not> Contains ''jane@gmail.com'' ''@cockroachlabs.com''"
  by (simp add: getOrganizationEmailsAndNamesFromAuthors_def HasPrefix_def HasSuffix_def slice_def)

text \<open>
  C7. A line that is kept and has an email field (one, or more than one) adds one name, the
  text before its first email field, and the email of every email field of the line.
\<close>

theorem line_with_email_tokens:
  assumes "\<not> HasPrefix line ''#''" and "Contains line ''@cockroachlabs.com''"
    and "1 \<le> length (filter isEmailField (Split line CHR '' ''))"
  shows "scanLines (line # lines) retEmails retLogins =
           scanLines lines
             (retEmails \<union> emailOf ` {field \<in> set (Split line CHR '' ''). isEmailField field})
             (insert (Join (takeWhile (\<lambda>field. \<not> isEmailField field) (Split line CHR '' ''))
                        '' '') retLogins)"
proof -
  from assms(3) have "filter isEmailField (Split line CHR '' '') \<noteq> []" by auto
  then have "\<exists>field\<in>set (Split line CHR '' ''). isEmailField field"
    by (simp add: filter_empty_conv)
  then show ?thesis using assms(1,2) by (simp only: scanLines_step if_True if_False simp_thms)
qed

text \<open>The theorem on a line with two email fields.\<close>

theorem line_with_email_tokens_witness:
  "\<not> HasPrefix ''Jane Doe <jane@gmail.com> <jane@cockroachlabs.com>'' ''#'' \<and>
   Contains ''Jane Doe <jane@gmail.com> <jane@cockroachlabs.com>'' ''@cockroachlabs.com'' \<and>
   length (filter isEmailField
     (Split ''Jane Doe <jane@gmail.com> <jane@cockroachlabs.com>'' CHR '' '')) = 2 \<and>
   scanLines [''Jane Doe <jane@gmail.com> <jane@cockroachlabs.com>''] {} {} =
     ({''jane@gmail.com'', ''jane@cockroachlabs.com''}, {''Jane Doe''})"
  using line_with_email_tokens
    [of "''Jane Doe <jane@gmail.com> <jane@cockroachlabs.com>''" "[]" "{}" "{}"]
  by (simp add: HasPrefix_def HasSuffix_def slice_def isEmailField_def emailOf_def insert_commute)

section \<open>The checkpoint round trip\<close>

lemma map_of_appendTimes:
  "map_of (appendTimes timeFormat k ts commitTimes) =
     (if ts = [] then map_of commitTimes
      else (map_of commitTimes)(k \<mapsto> lookupOr [] commitTimes k @ map timeFormat ts))"
proof (induction ts arbitrary: commitTimes)
  case Nil
  then show ?case by simp
next
  case (Cons t ts)
  show ?case
    by (auto simp: Cons.IH update_conv' lookupOr_def fun_eq_iff)
qed

lemma distinct_appendTimes:
  "distinct (map fst commitTimes) \<Longrightarrow>
   distinct (map fst (appendTimes timeFormat k ts commitTimes))"
  by (induction ts arbitrary: commitTimes) (simp_all add: distinct_update)

lemma distinct_buildCommitTimes:
  "distinct (map fst commitTimes) \<Longrightarrow>
   distinct (map fst (buildCommitTimes timeFormat userTimes commitTimes))"
  by (induction userTimes arbitrary: commitTimes) (auto simp: distinct_appendTimes)

lemma map_of_buildCommitTimes:
  "distinct (map fst userTimes) \<Longrightarrow>
   map_of (buildCommitTimes timeFormat userTimes commitTimes) k =
     (case map_of userTimes k of
        None \<Rightarrow> map_of commitTimes k
      | Some ts \<Rightarrow>
          (if ts = [] then map_of commitTimes k
           else Some (lookupOr [] commitTimes k @ map timeFormat ts)))"
proof (induction userTimes arbitrary: commitTimes)
  case Nil
  then show ?case by simp
next
  case (Cons p userTimes)
  obtain k' ts' where p: "p = (k', ts')" by (cases p)
  from Cons.prems p have d: "distinct (map fst userTimes)" and nk: "k' \<notin> fst ` set userTimes"
    by auto
  from nk have none: "map_of userTimes k' = None" by (simp add: map_of_eq_None_iff)
  show ?case
  proof (cases "k = k'")
    case True
    then show ?thesis
      using none Cons.IH [OF d, of "appendTimes timeFormat k' ts' commitTimes"]
      by (auto simp: p map_of_appendTimes lookupOr_def)
  next
    case False
    then show ?thesis
      by (simp add: p Cons.IH [OF d] map_of_appendTimes lookupOr_def split: option.splits)
  qed
qed

lemma parseTimes_formatted:
  "\<forall>t\<in>set ts. timeParse (timeFormat t) = Some (truncateSecond t) \<Longrightarrow>
   parseTimes timeParse (map timeFormat ts) acc = Inr (acc @ map truncateSecond ts)"
  by (induction ts arbitrary: acc) simp_all

lemma parseUsers_all:
  assumes "\<forall>(k, timesIn)\<in>set usersIn. \<exists>ts. parseTimes timeParse timesIn [] = Inr ts"
  shows "\<exists>loaded. parseUsers timeParse usersIn = Inr loaded \<and>
           map fst loaded = map fst usersIn \<and>
           (\<forall>(k, timesIn)\<in>set usersIn. \<forall>ts. parseTimes timeParse timesIn [] = Inr ts \<longrightarrow>
               (k, ts) \<in> set loaded) \<and>
           (\<forall>(k, ts)\<in>set loaded. \<exists>timesIn. (k, timesIn) \<in> set usersIn \<and>
               parseTimes timeParse timesIn [] = Inr ts)"
  using assms
proof (induction usersIn)
  case Nil
  then show ?case by simp
next
  case (Cons p usersIn)
  obtain k timesIn where p: "p = (k, timesIn)" by (cases p)
  from Cons.prems p obtain ts where ts: "parseTimes timeParse timesIn [] = Inr ts" by auto
  from Cons.prems have "\<forall>(k, timesIn)\<in>set usersIn. \<exists>ts. parseTimes timeParse timesIn [] = Inr ts"
    by simp
  from Cons.IH [OF this] obtain loaded where l: "parseUsers timeParse usersIn = Inr loaded"
    "map fst loaded = map fst usersIn"
    "\<forall>(k, timesIn)\<in>set usersIn. \<forall>ts. parseTimes timeParse timesIn [] = Inr ts \<longrightarrow>
               (k, ts) \<in> set loaded"
    "\<forall>(k, ts)\<in>set loaded. \<exists>timesIn. (k, timesIn) \<in> set usersIn \<and>
               parseTimes timeParse timesIn [] = Inr ts"
    by blast
  have "parseUsers timeParse (p # usersIn) = Inr ((k, ts) # loaded)"
    by (simp add: p ts l(1))
  moreover have "map fst ((k, ts) # loaded) = map fst (p # usersIn)" by (simp add: p l(2))
  ultimately show ?case using l(3,4) ts p by fastforce
qed

text \<open>
  The loops of the store and of the load, for any codec: if the document unmarshals to the
  map that was marshalled and the text of each timestamp parses back to the whole second
  of that timestamp, then loading the stored checkpoint yields the same logins, each with
  its timestamps in order, cut to the second.
\<close>

lemma checkpoint_loops:
  assumes d: "distinct (map fst userTimes)"
    and ne: "\<forall>(k, ts)\<in>set userTimes. ts \<noteq> []"
    and tm: "\<forall>(k, ts)\<in>set userTimes. \<forall>t\<in>set ts. timeParse (timeFormat t) = Some (truncateSecond t)"
    and js: "jsonUnmarshal (jsonMarshal (buildCommitTimes timeFormat userTimes [])) = Some usersIn"
    and jd: "distinct (map fst usersIn)"
    and jm: "map_of usersIn = map_of (buildCommitTimes timeFormat userTimes [])"
  shows "\<exists>loaded.
           loadCheckpoint jsonUnmarshal timeParse
             (storeCheckpoint timeFormat jsonMarshal userTimes) = Inr loaded \<and>
           distinct (map fst loaded) \<and>
           (\<forall>k. map_of loaded k = map_option (map truncateSecond) (map_of userTimes k))"
proof -
  have stored: "map_of usersIn k =
      (case map_of userTimes k of None \<Rightarrow> None
       | Some ts \<Rightarrow> if ts = [] then None else Some (map timeFormat ts))" for k
    by (simp add: jm map_of_buildCommitTimes [OF d] lookupOr_def split: option.splits)
  have each: "\<exists>ts. (k, ts) \<in> set userTimes \<and> timesIn = map timeFormat ts \<and>
                parseTimes timeParse timesIn [] = Inr (map truncateSecond ts)"
    if "(k, timesIn) \<in> set usersIn" for k timesIn
  proof -
    from that jd have "map_of usersIn k = Some timesIn" by simp
    then obtain ts where ts: "map_of userTimes k = Some ts" "timesIn = map timeFormat ts"
      using stored [of k] by (auto split: option.splits if_splits)
    then have in_ut: "(k, ts) \<in> set userTimes" by (simp add: map_of_SomeD)
    then have "\<forall>t\<in>set ts. timeParse (timeFormat t) = Some (truncateSecond t)" using tm by auto
    from parseTimes_formatted [OF this, of "[]"] show ?thesis using ts in_ut by auto
  qed
  then have "\<forall>(k, timesIn)\<in>set usersIn. \<exists>ts. parseTimes timeParse timesIn [] = Inr ts"
    by blast
  from parseUsers_all [OF this] obtain loaded where l: "parseUsers timeParse usersIn = Inr loaded"
    "map fst loaded = map fst usersIn"
    "\<forall>(k, timesIn)\<in>set usersIn. \<forall>ts. parseTimes timeParse timesIn [] = Inr ts \<longrightarrow>
               (k, ts) \<in> set loaded"
    "\<forall>(k, ts)\<in>set loaded. \<exists>timesIn. (k, timesIn) \<in> set usersIn \<and>
               parseTimes timeParse timesIn [] = Inr ts"
    by blast
  have dl: "distinct (map fst loaded)" using l(2) jd by simp
  have "map_of loaded k = map_option (map truncateSecond) (map_of userTimes k)" for k
  proof (cases "map_of userTimes k")
    case None
    then have "map_of usersIn k = None" using stored [of k] by simp
    then have "k \<notin> fst ` set usersIn" by (simp add: map_of_eq_None_iff)
    then have "k \<notin> fst ` set loaded" using l(2) by (metis set_map)
    then have "map_of loaded k = None" by (simp add: map_of_eq_None_iff)
    then show ?thesis using None by simp
  next
    case (Some ts)
    then have "(k, ts) \<in> set userTimes" by (simp add: map_of_SomeD)
    then have "ts \<noteq> []" using ne by auto
    then have "map_of usersIn k = Some (map timeFormat ts)" using stored [of k] Some by simp
    then have "(k, map timeFormat ts) \<in> set usersIn" by (simp add: map_of_SomeD)
    moreover from each [OF this] obtain ts' where
      "parseTimes timeParse (map timeFormat ts) [] = Inr (map truncateSecond ts')"
      "(k, ts') \<in> set userTimes" by blast
    moreover have "ts' = ts" using \<open>(k, ts') \<in> set userTimes\<close> Some d by simp
    ultimately have "(k, map truncateSecond ts) \<in> set loaded" using l(3) by auto
    then show ?thesis using dl Some by simp
  qed
  then show ?thesis using l(1) dl js
    by (simp add: loadCheckpoint_def storeCheckpoint_def)
qed

section \<open>Counting the timestamps of a bucket\<close>

lemma map_of_countTimes:
  "map_of (countTimes k ts from to timesByUser) =
     (if length [t \<leftarrow> ts. from < t \<and> t < to] = 0 then map_of timesByUser
      else (map_of timesByUser)(k \<mapsto>
             lookupOr 0 timesByUser k + length [t \<leftarrow> ts. from < t \<and> t < to]))"
proof (induction ts arbitrary: timesByUser)
  case Nil
  then show ?case by simp
next
  case (Cons t ts)
  show ?case
    by (auto simp: Cons.IH After_def Before_def update_conv' lookupOr_def fun_eq_iff)
qed

lemma map_of_countUsers:
  "distinct (map fst users) \<Longrightarrow>
   map_of (countUsers users from to timesByUser) k =
     (case map_of users k of
        None \<Rightarrow> map_of timesByUser k
      | Some obj \<Rightarrow>
          (if length [t \<leftarrow> times' obj. from < t \<and> t < to] = 0 then map_of timesByUser k
           else Some (lookupOr 0 timesByUser k +
                      length [t \<leftarrow> times' obj. from < t \<and> t < to])))"
proof (induction users arbitrary: timesByUser)
  case Nil
  then show ?case by simp
next
  case (Cons p users)
  obtain k' obj' where p: "p = (k', obj')" by (cases p)
  from Cons.prems p have d: "distinct (map fst users)" and nk: "k' \<notin> fst ` set users"
    by auto
  from nk have none: "map_of users k' = None" by (simp add: map_of_eq_None_iff)
  show ?case
  proof (cases "k = k'")
    case True
    then show ?thesis
      using none Cons.IH [OF d, of "countTimes k' (times' obj') from to timesByUser"]
      by (auto simp: p map_of_countTimes lookupOr_def)
  next
    case False
    then show ?thesis
      by (simp add: p Cons.IH [OF d] map_of_countTimes lookupOr_def split: option.splits)
  qed
qed

text \<open>
  C5. After the counting loops, the entry of a user in \<open>timesByUser\<close> is the number of the
  user's timestamps \<open>t\<close> with \<open>from < t\<close> and \<open>t < to\<close>, and the user has no entry when
  there is none. A timestamp equal to \<open>from\<close> or to \<open>to\<close> fails the strict comparison
  and is not counted; one strictly between them is.
\<close>

theorem timesByUser_counts_strictly_inside:
  assumes "distinct (map fst users)" and "map_of users k = Some obj"
  shows "map_of (countUsers users from to []) k =
           (if [t \<leftarrow> times' obj. from < t \<and> t < to] = [] then None
            else Some (length [t \<leftarrow> times' obj. from < t \<and> t < to]))"
  using assms by (simp add: map_of_countUsers lookupOr_def)

text \<open>
  The theorem on a user with timestamps at \<open>from\<close>, one unit after \<open>from\<close>, one unit before
  \<open>to\<close> and at \<open>to\<close>: the two inner ones are counted.
\<close>

theorem timesByUser_counts_strictly_inside_witness:
  "distinct (map fst
     [(''alice'', \<lparr>userURL = ''https://github.com/alice'', login = ''alice'',
                   name = ''Alice'', times' = [100, 101, 199, 200]\<rparr>)]) \<and>
   map_of [(''alice'', \<lparr>userURL = ''https://github.com/alice'', login = ''alice'',
                   name = ''Alice'', times' = [100, 101, 199, 200]\<rparr>)] ''alice'' =
     Some \<lparr>userURL = ''https://github.com/alice'', login = ''alice'',
                   name = ''Alice'', times' = [100, 101, 199, 200]\<rparr> \<and>
   map_of (countUsers
     [(''alice'', \<lparr>userURL = ''https://github.com/alice'', login = ''alice'',
                   name = ''Alice'', times' = [100, 101, 199, 200]\<rparr>)] 100 200 []) ''alice'' =
     Some 2"
  using timesByUser_counts_strictly_inside [of
      "[(''alice'', \<lparr>userURL = ''https://github.com/alice'', login = ''alice'',
                   name = ''Alice'', times' = [100, 101, 199, 200]\<rparr>)]"
      "''alice''"
      "\<lparr>userURL = ''https://github.com/alice'', login = ''alice'',
                   name = ''Alice'', times' = [100, 101, 199, 200]\<rparr>" 100 200]
  by simp

section \<open>The ranking\<close>

lemma mset_insertBy: "mset (insertBy lt x xs) = add_mset x (mset xs)"
  by (induction xs) simp_all

lemma mset_sortSlice: "mset (sortSlice lt xs) = mset xs"
  by (induction xs) (simp_all add: mset_insertBy)

lemma set_sortSlice: "set (sortSlice lt xs) = set xs"
  using mset_sortSlice [of lt xs] by (metis set_mset_mset)

lemma length_sortSlice: "length (sortSlice lt xs) = length xs"
  using mset_sortSlice [of lt xs] by (metis size_mset)

lemma entryLess_trans: "entryLess a b \<Longrightarrow> entryLess b c \<Longrightarrow> entryLess a c"
  by (auto simp: entryLess_def split: if_splits)

lemma entryLess_asym: "entryLess a b \<Longrightarrow> \<not> entryLess b a"
  by (auto simp: entryLess_def split: if_splits)

lemma sorted_insertBy:
  "sorted_wrt (\<lambda>a b. \<not> entryLess b a) xs \<Longrightarrow>
   sorted_wrt (\<lambda>a b. \<not> entryLess b a) (insertBy entryLess x xs)"
proof (induction xs)
  case Nil
  then show ?case by simp
next
  case (Cons y ys)
  show ?case
  proof (cases "entryLess x y")
    case True
    have "\<not> entryLess z x" if "z \<in> set (y # ys)" for z
    proof
      assume zx: "entryLess z x"
      then have "entryLess z y" using True entryLess_trans by blast
      moreover have "z = y \<or> \<not> entryLess z y" using that Cons.prems by auto
      ultimately have "z = y" by blast
      then show False using zx True entryLess_asym by blast
    qed
    then show ?thesis using True Cons.prems by simp
  next
    case False
    then show ?thesis using Cons
      by (auto simp: set_mset_mset [symmetric] mset_insertBy simp del: set_mset_mset)
  qed
qed

lemma sorted_sortSlice: "sorted_wrt (\<lambda>a b. \<not> entryLess b a) (sortSlice entryLess xs)"
  by (induction xs) (simp_all add: sorted_insertBy)

text \<open>
  The order of any slice that is sorted by the comparator, whichever sort produced it.
\<close>

lemma comparator_order:
  assumes "sorted_wrt (\<lambda>a b. \<not> entryLess b a) toSort" and "i < j" and "j < length toSort"
  shows "count' (toSort ! j) \<le> count' (toSort ! i) \<and>
         (count' (toSort ! i) = count' (toSort ! j) \<longrightarrow>
          login (u' (toSort ! i)) \<le> login (u' (toSort ! j)))"
proof -
  have "\<not> entryLess (toSort ! j) (toSort ! i)"
    using assms by (simp add: sorted_wrt_iff_nth_less)
  then show ?thesis
    by (auto simp: entryLess_def split: if_splits)
qed

text \<open>The equations that evaluate a ranking on the users of the scenarios.\<close>

lemmas eval_defs =
  rankContributors_def toSortOf_def lookupOr_def entryLess_def After_def Before_def
  alice_def bob_def spammer_def

text \<open>
  C6. In the ranked slice, an entry never has a smaller count than a later one, and of two
  entries with the same count the earlier has the smaller (or the same) login, in the
  bytewise order of Go strings. \<open>renderBlock_eq\<close> below shows that the labels of the block
  stand in the order of this slice.
\<close>

theorem ranking_order:
  assumes "i < j" and "j < length (rankContributors users from to)"
  shows "count' (rankContributors users from to ! j) \<le>
           count' (rankContributors users from to ! i) \<and>
         (count' (rankContributors users from to ! i) =
            count' (rankContributors users from to ! j) \<longrightarrow>
          login (u' (rankContributors users from to ! i)) \<le>
            login (u' (rankContributors users from to ! j)))"
proof -
  have "sorted_wrt (\<lambda>a b. \<not> entryLess b a) (rankContributors users from to)"
    by (simp add: rankContributors_def sorted_sortSlice)
  from comparator_order [OF this assms] show ?thesis .
qed

text \<open>The scenario of the tie: "alice" and "bob" with two commits each.\<close>

theorem ranking_order_witness:
  "(0::nat) < 1 \<and> 1 < length (rankContributors [(''bob'', bob), (''alice'', alice)] 100 200) \<and>
   rankContributors [(''bob'', bob), (''alice'', alice)] 100 200 =
     [\<lparr>u' = alice, count' = 2\<rparr>, \<lparr>u' = bob, count' = 2\<rparr>]"
  using ranking_order [of 0 1 "[(''bob'', bob), (''alice'', alice)]" 100 200]
  by (simp add: eval_defs)

section \<open>The summary line\<close>

lemma sum_list_update_bump:
  "sum_list (map snd (AList.update k (lookupOr 0 al k + n) al)) = sum_list (map snd al) + (n::nat)"
  by (induction al) (auto simp: lookupOr_def)

lemma sum_list_countTimes:
  "sum_list (map snd (countTimes k ts from to timesByUser)) =
     sum_list (map snd timesByUser) + length [t \<leftarrow> ts. from < t \<and> t < to]"
proof (induction ts arbitrary: timesByUser)
  case Nil
  then show ?case by simp
next
  case (Cons t ts)
  show ?case
    using sum_list_update_bump [of k timesByUser 1]
    by (simp add: Cons.IH After_def Before_def)
qed

lemma sum_list_countUsers:
  "sum_list (map snd (countUsers users from to timesByUser)) =
     sum_list (map snd timesByUser) +
     sum_list (map (\<lambda>(k, obj). length [t \<leftarrow> times' obj. from < t \<and> t < to]) users)"
  by (induction users arbitrary: timesByUser) (auto simp: sum_list_countTimes)

lemma distinct_countTimes:
  "distinct (map fst timesByUser) \<Longrightarrow> distinct (map fst (countTimes k ts from to timesByUser))"
  by (induction ts arbitrary: timesByUser) (simp_all add: distinct_update)

lemma distinct_countUsers:
  "distinct (map fst timesByUser) \<Longrightarrow>
   distinct (map fst (countUsers users from to timesByUser))"
  by (induction users arbitrary: timesByUser) (auto simp: distinct_countTimes)

lemma dom_countUsers:
  assumes "distinct (map fst users)"
  shows "fst ` set (countUsers users from to []) =
           {k. \<exists>obj. map_of users k = Some obj \<and> (\<exists>t\<in>set (times' obj). from < t \<and> t < to)}"
proof -
  have "fst ` set (countUsers users from to []) = dom (map_of (countUsers users from to []))"
    by (simp add: dom_map_of_conv_image_fst)
  also have "\<dots> = {k. \<exists>obj. map_of users k = Some obj \<and> (\<exists>t\<in>set (times' obj). from < t \<and> t < to)}"
  proof (rule set_eqI)
    fix k
    show "k \<in> dom (map_of (countUsers users from to [])) \<longleftrightarrow>
          k \<in> {k. \<exists>obj. map_of users k = Some obj \<and> (\<exists>t\<in>set (times' obj). from < t \<and> t < to)}"
      by (cases "map_of users k")
         (auto simp: dom_def map_of_countUsers [OF assms] filter_empty_conv)
  qed
  finally show ?thesis .
qed

lemma length_countUsers:
  assumes "distinct (map fst users)"
  shows "length (countUsers users from to []) =
           card {k. \<exists>obj. map_of users k = Some obj \<and> (\<exists>t\<in>set (times' obj). from < t \<and> t < to)}"
proof -
  have d: "distinct (map fst (countUsers users from to []))"
    by (simp add: distinct_countUsers)
  have "length (countUsers users from to []) = length (map fst (countUsers users from to []))"
    by simp
  also have "\<dots> = card (set (map fst (countUsers users from to [])))"
    using d by (simp only: distinct_card)
  also have "\<dots> = card {k. \<exists>obj. map_of users k = Some obj \<and> (\<exists>t\<in>set (times' obj). from < t \<and> t < to)}"
    using dom_countUsers [OF assms] by simp
  finally show ?thesis .
qed

lemma renderLoop_eq:
  "renderLoop es ret total' = (ret @ map renderEntry es, total' + sum_list (map count' es))"
  by (induction es arbitrary: ret total') simp_all

lemma renderBlock_eq:
  "renderBlock toSort =
     decimal (length toSort) @ '' contributors, '' @ decimal (sum_list (map count' toSort)) @
     '' commits'' @ [CHR 0x0A, CHR 0x0A] @ Join (map renderEntry toSort) '', ''"
  by (simp add: renderBlock_def renderLoop_eq)

lemma count'_toSortOf: "map count' (toSortOf users timesByUser) = map snd timesByUser"
  by (simp add: toSortOf_def case_prod_unfold comp_def)

lemma sum_list_sortSlice:
  "sum_list (map f (sortSlice lt xs)) = (sum_list (map f xs) :: nat)"
proof -
  have "mset (map f (sortSlice lt xs)) = mset (map f xs)"
    by (simp add: mset_sortSlice)
  then show ?thesis by (metis sum_mset_sum_list)
qed

text \<open>
  C8. The block is the summary line, an empty line and the labels. The first number of the
  summary is the number of users with a timestamp strictly inside the range, the second is
  the number of such timestamps over all users; when no timestamp lies in the range the
  block is \<open>0 contributors, 0 commits\<close> and nothing else.
\<close>

theorem summary_line:
  assumes "distinct (map fst users)"
  shows "formatContributors users from to =
           decimal (card {k. \<exists>obj. map_of users k = Some obj \<and>
                              (\<exists>t\<in>set (times' obj). from < t \<and> t < to)}) @
           '' contributors, '' @
           decimal (sum_list (map (\<lambda>(k, obj). length [t \<leftarrow> times' obj. from < t \<and> t < to]) users)) @
           '' commits'' @ [CHR 0x0A, CHR 0x0A] @
           Join (map renderEntry (rankContributors users from to)) '', '' \<and>
         ((\<forall>(k, obj)\<in>set users. \<forall>t\<in>set (times' obj). \<not> (from < t \<and> t < to)) \<longrightarrow>
            formatContributors users from to =
              ''0 contributors, 0 commits'' @ [CHR 0x0A, CHR 0x0A])"
proof -
  let ?inside = "{k. \<exists>obj. map_of users k = Some obj \<and> (\<exists>t\<in>set (times' obj). from < t \<and> t < to)}"
  let ?commits = "sum_list (map (\<lambda>(k, obj). length [t \<leftarrow> times' obj. from < t \<and> t < to]) users)"
  have len: "length (rankContributors users from to) = card ?inside"
    by (simp add: rankContributors_def length_sortSlice toSortOf_def length_countUsers [OF assms])
  have tot: "sum_list (map count' (rankContributors users from to)) = ?commits"
    by (simp add: rankContributors_def sum_list_sortSlice count'_toSortOf sum_list_countUsers)
  have main: "formatContributors users from to =
      decimal (card ?inside) @ '' contributors, '' @ decimal ?commits @
      '' commits'' @ [CHR 0x0A, CHR 0x0A] @ Join (map renderEntry (rankContributors users from to)) '', ''"
    by (simp only: formatContributors_def renderBlock_eq len tot)
  have empty: "formatContributors users from to = ''0 contributors, 0 commits'' @ [CHR 0x0A, CHR 0x0A]"
    if none: "\<forall>(k, obj)\<in>set users. \<forall>t\<in>set (times' obj). \<not> (from < t \<and> t < to)"
  proof -
    have "?inside = {}"
    proof (rule ccontr)
      assume "?inside \<noteq> {}"
      then obtain k obj t where "map_of users k = Some obj" "t \<in> set (times' obj)" "from < t" "t < to"
        by blast
      then show False using none map_of_SomeD [of users k obj] by fastforce
    qed
    then have c0: "card ?inside = 0" by (simp only: card.empty)
    then have r0: "rankContributors users from to = []" using len by simp
    have "sum_list (map count' (rankContributors users from to)) = 0" by (simp add: r0)
    then have s0: "?commits = 0" using tot by simp
    show ?thesis unfolding main c0 s0 r0 by (simp add: decimal.simps)
  qed
  show ?thesis using main empty by blast
qed

text \<open>The theorem on a range with four commits of two users, and on an empty range.\<close>

theorem summary_line_witness:
  "distinct (map fst [(''bob'', bob), (''alice'', alice)]) \<and>
   formatContributors [(''bob'', bob), (''alice'', alice)] 100 200 =
     ''2 contributors, 4 commits'' @ [CHR 0x0A, CHR 0x0A] @
     ''[Alice](https://github.com/alice) (2), [Bob](https://github.com/bob) (2)'' \<and>
   card {k. \<exists>obj. map_of [(''bob'', bob), (''alice'', alice)] k = Some obj \<and>
                  (\<exists>t\<in>set (times' obj). 100 < t \<and> t < 200)} = 2 \<and>
   formatContributors [(''bob'', bob), (''alice'', alice)] 300 400 =
     ''0 contributors, 0 commits'' @ [CHR 0x0A, CHR 0x0A]"
proof -
  let ?U = "[(''bob'', bob), (''alice'', alice)]"
  have d: "distinct (map fst ?U)" by simp
  have n: "\<forall>(k, obj)\<in>set ?U. \<forall>t\<in>set (times' obj). \<not> (300 < t \<and> t < 400)"
    by (simp add: alice_def bob_def)
  have e: "formatContributors ?U 100 200 =
     ''2 contributors, 4 commits'' @ [CHR 0x0A, CHR 0x0A] @
     ''[Alice](https://github.com/alice) (2), [Bob](https://github.com/bob) (2)''"
    by (simp add: formatContributors_def renderBlock_def renderEntry_def decimal.simps eval_defs)
  have "decimal (card {k. \<exists>obj. map_of ?U k = Some obj \<and>
                  (\<exists>t\<in>set (times' obj). 100 < t \<and> t < 200)}) @ '' contributors, '' @
        decimal (sum_list (map (\<lambda>(k, obj). length [t \<leftarrow> times' obj. 100 < t \<and> t < 200]) ?U)) @
        '' commits'' @ [CHR 0x0A, CHR 0x0A] @
        Join (map renderEntry (rankContributors ?U 100 200)) '', '' =
        ''2 contributors, 4 commits'' @ [CHR 0x0A, CHR 0x0A] @
        ''[Alice](https://github.com/alice) (2), [Bob](https://github.com/bob) (2)''"
    using summary_line [OF d, of 100 200] e by simp
  moreover have l: "length (rankContributors ?U 100 200) = 2" by (simp add: eval_defs)
  have c: "card {k. \<exists>obj. map_of ?U k = Some obj \<and>
                  (\<exists>t\<in>set (times' obj). 100 < t \<and> t < 200)} = 2"
    using length_countUsers [OF d, of 100 200] l
    by (simp add: rankContributors_def length_sortSlice toSortOf_def)
  from summary_line [OF d, of 300 400] n
  have "formatContributors ?U 300 400 = ''0 contributors, 0 commits'' @ [CHR 0x0A, CHR 0x0A]"
    by blast
  with d e c show ?thesis by blast
qed

section \<open>Identities of the filter set\<close>

lemma collate_origin:
  "(k, y) \<in> set (collate blocklisted blocklistedNames results users) \<Longrightarrow>
   (k, y) \<in> set users \<or>
   (y \<in> set results \<and> k = login y \<and> login y \<notin> blocklisted \<and> name y \<notin> blocklistedNames)"
proof (induction results arbitrary: users)
  case Nil
  then show ?case by simp
next
  case (Cons x results)
  show ?case
  proof (cases "login x \<in> blocklisted \<or> name x \<in> blocklistedNames")
    case True
    then have "(k, y) \<in> set (collate blocklisted blocklistedNames results users)"
      using Cons.prems by (auto split: if_splits)
    from Cons.IH [OF this] show ?thesis by auto
  next
    case False
    then have "(k, y) \<in> set (collate blocklisted blocklistedNames results
                               (AList.update (login x) x users))"
      using Cons.prems by auto
    from Cons.IH [OF this] show ?thesis
      using False set_update_subset [of "login x" x users] by auto
  qed
qed

lemma keys_countTimes:
  "fst ` set (countTimes k ts from to timesByUser) \<subseteq> insert k (fst ` set timesByUser)"
proof (induction ts arbitrary: timesByUser)
  case Nil
  then show ?case by auto
next
  case (Cons t ts)
  have "fst ` set (AList.update k v timesByUser) \<subseteq> insert k (fst ` set timesByUser)" for v
    using set_update_subset [of k v timesByUser] by auto
  then show ?case using Cons.IH by (simp; blast)
qed

lemma keys_countUsers:
  "fst ` set (countUsers users from to timesByUser) \<subseteq> fst ` set users \<union> fst ` set timesByUser"
proof (induction users arbitrary: timesByUser)
  case Nil
  then show ?case by simp
next
  case (Cons p users)
  obtain k obj where p: "p = (k, obj)" by (cases p)
  show ?case
    using Cons.IH [of "countTimes k (times' obj) from to timesByUser"]
      keys_countTimes [of k "times' obj" "from" "to" timesByUser]
    by (auto simp: p)
qed

lemma lookupOr_in_set:
  "k \<in> fst ` set users \<Longrightarrow> (k, lookupOr zero users k) \<in> set users"
proof -
  assume "k \<in> fst ` set users"
  then obtain v where "map_of users k = Some v"
    by (metis domD dom_map_of_conv_image_fst)
  then show ?thesis by (simp add: lookupOr_def map_of_SomeD)
qed

lemma toSortOf_entry:
  assumes "e \<in> set (toSortOf users timesByUser)" and "fst ` set timesByUser \<subseteq> fst ` set users"
  shows "\<exists>k. (k, count' e) \<in> set timesByUser \<and> (k, u' e) \<in> set users"
proof -
  from assms(1) obtain k c where kc: "(k, c) \<in> set timesByUser"
    and e: "e = \<lparr>u' = lookupOr zeroUser users k, count' = c\<rparr>"
    by (auto simp: toSortOf_def)
  from kc assms(2) have "k \<in> fst ` set users" by force
  then have "(k, lookupOr zeroUser users k) \<in> set users" by (rule lookupOr_in_set)
  then show ?thesis using kc e by auto
qed

lemma rankContributors_entry:
  assumes "e \<in> set (rankContributors users from to)"
  shows "\<exists>k. (k, count' e) \<in> set (countUsers users from to []) \<and> (k, u' e) \<in> set users"
proof -
  have "e \<in> set (toSortOf users (countUsers users from to []))"
    using assms by (simp add: rankContributors_def set_sortSlice)
  moreover have "fst ` set (countUsers users from to []) \<subseteq> fst ` set users"
    using keys_countUsers [of users "from" "to" "[]"] by simp
  ultimately show ?thesis by (rule toSortOf_entry)
qed

text \<open>
  The tasks send one value for each key of \<open>usersIn\<close>, with that key as its login: the
  logins of the values are distinct, in whatever order they arrive.
\<close>

lemma lookupUsers_logins:
  "lookupUsers usersGet timeParse usersIn = Inr results \<Longrightarrow>
   map login results = map fst usersIn"
proof (induction usersIn arbitrary: results)
  case Nil
  then show ?case by simp
next
  case (Cons p usersIn)
  obtain k timesIn where p: "p = (k, timesIn)" by (cases p)
  from Cons.prems p obtain x xs where
    x: "lookupUser usersGet timeParse k timesIn = Inr x" and
    xs: "lookupUsers usersGet timeParse usersIn = Inr xs" and
    r: "results = x # xs"
    by (auto split: sum.splits)
  from x have "login x = k"
    by (auto simp: lookupUser_def split: option.splits sum.splits)
  then show ?case using Cons.IH [OF xs] r p by simp
qed

text \<open>
  C4. Let \<open>results\<close> be the values received from the tasks, one for each login, and \<open>x\<close> one
  of them whose login is blocklisted or whose name is on the roster. Then, whatever the
  range, no entry of the ranked slice has the login of \<open>x\<close>; and every entry has a login
  outside the blocklist and a name outside the roster names. The blocks of all the years
  and of all time are rendered from such slices.
\<close>

theorem filtered_identity_never_ranked:
  assumes "distinct (map login results)" and "x \<in> set results"
    and "login x \<in> blocklisted \<or> name x \<in> blocklistedNames"
  shows "\<forall>e\<in>set (rankContributors (collate blocklisted blocklistedNames results []) from to).
           login (u' e) \<noteq> login x \<and> login (u' e) \<notin> blocklisted \<and>
           name (u' e) \<notin> blocklistedNames"
proof
  fix e
  assume "e \<in> set (rankContributors (collate blocklisted blocklistedNames results []) from to)"
  then obtain k where "(k, u' e) \<in> set (collate blocklisted blocklistedNames results [])"
    using rankContributors_entry by blast
  then have y: "u' e \<in> set results" "login (u' e) \<notin> blocklisted" "name (u' e) \<notin> blocklistedNames"
    using collate_origin [of k "u' e" blocklisted blocklistedNames results "[]"] by auto
  have "login (u' e) \<noteq> login x"
  proof
    assume "login (u' e) = login x"
    then have "u' e = x"
      using assms(1,2) y(1) by (meson distinct_map inj_onD)
    then show False using y(2,3) assms(3) by auto
  qed
  then show "login (u' e) \<noteq> login x \<and> login (u' e) \<notin> blocklisted \<and>
           name (u' e) \<notin> blocklistedNames" using y by simp
qed

text \<open>
  The scenario of the blocklist: "spammer" has ten commits in the range and is on the
  blocklist.
\<close>

theorem filtered_identity_never_ranked_witness:
  "distinct (map login [spammer, alice]) \<and> spammer \<in> set [spammer, alice] \<and>
   login spammer \<in> blocklistedOf ''spammer,dependabot'' \<and>
   rankContributors
     (collate (blocklistedOf ''spammer,dependabot'')
        (snd (getOrganizationEmailsAndNamesFromAuthors ''Jane Doe <jane@cockroachlabs.com>''))
        [spammer, alice] []) 100 200 = [\<lparr>u' = alice, count' = 2\<rparr>] \<and>
   login (u' \<lparr>u' = alice, count' = 2\<rparr>) \<noteq> login spammer"
proof -
  let ?bl = "blocklistedOf ''spammer,dependabot''"
  let ?names = "snd (getOrganizationEmailsAndNamesFromAuthors ''Jane Doe <jane@cockroachlabs.com>'')"
  have h1: "distinct (map login [spammer, alice])" by (simp add: spammer_def alice_def)
  have h2: "spammer \<in> set [spammer, alice]" by simp
  have h3: "login spammer \<in> ?bl" by (simp add: blocklistedOf_def spammer_def)
  then have h3': "login spammer \<in> ?bl \<or> name spammer \<in> ?names" by (rule disjI1)
  have e: "rankContributors (collate ?bl ?names [spammer, alice] []) 100 200 =
             [\<lparr>u' = alice, count' = 2\<rparr>]"
    by (simp add: blocklistedOf_def getOrganizationEmailsAndNamesFromAuthors_def
          HasPrefix_def HasSuffix_def slice_def eval_defs)
  from filtered_identity_never_ranked [OF h1 h2 h3', of "100" "200"]
  have "\<forall>e\<in>set (rankContributors (collate ?bl ?names [spammer, alice] []) 100 200).
          login (u' e) \<noteq> login spammer" by blast
  then have "login (u' \<lparr>u' = alice, count' = 2\<rparr>) \<noteq> login spammer"
    unfolding e by simp
  with h1 h2 h3 e show ?thesis by blast
qed

section \<open>Determinism of the formatter\<close>

text \<open>The map built by the collation loop has distinct keys, each the login of its value.\<close>

lemma collate_wellformed:
  "distinct (map fst users) \<Longrightarrow> \<forall>(k, obj)\<in>set users. login obj = k \<Longrightarrow>
   distinct (map fst (collate blocklisted blocklistedNames results users)) \<and>
   (\<forall>(k, obj)\<in>set (collate blocklisted blocklistedNames results users). login obj = k)"
proof (induction results arbitrary: users)
  case Nil
  then show ?case by simp
next
  case (Cons x results)
  show ?case
  proof (cases "login x \<in> blocklisted \<or> name x \<in> blocklistedNames")
    case True
    then have eq: "collate blocklisted blocklistedNames (x # results) users =
               collate blocklisted blocklistedNames results users" by auto
    show ?thesis unfolding eq by (rule Cons.IH [OF Cons.prems])
  next
    case False
    then have eq: "collate blocklisted blocklistedNames (x # results) users =
               collate blocklisted blocklistedNames results (AList.update (login x) x users)"
      by auto
    have 1: "distinct (map fst (AList.update (login x) x users))"
      using Cons.prems(1) by (simp add: distinct_update)
    have 2: "\<forall>(k, obj)\<in>set (AList.update (login x) x users). login obj = k"
      using Cons.prems(2) set_update_subset [of "login x" x users] by auto
    show ?thesis unfolding eq by (rule Cons.IH [OF 1 2])
  qed
qed

text \<open>
  On entries with distinct logins the comparator decides every pair, so a slice has one
  sorted arrangement only.
\<close>

lemma entryLess_total:
  "login (u' a) \<noteq> login (u' b) \<Longrightarrow> entryLess a b \<or> entryLess b a"
  by (auto simp: entryLess_def)

lemma sorted_entries_unique:
  assumes "sorted_wrt (\<lambda>a b. \<not> entryLess b a) xs"
    and "sorted_wrt (\<lambda>a b. \<not> entryLess b a) ys"
    and "mset xs = mset ys"
    and "distinct (map (\<lambda>e. login (u' e)) xs)"
  shows "xs = ys"
  using assms
proof (induction xs arbitrary: ys)
  case Nil
  then show ?case by simp
next
  case (Cons x xs)
  from Cons.prems(3) obtain y ys' where ys: "ys = y # ys'"
    by (cases ys) auto
  have tot: "a = b \<or> entryLess a b \<or> entryLess b a"
    if "a \<in> set (x # xs)" "b \<in> set (x # xs)" for a b
  proof (cases "login (u' a) = login (u' b)")
    case True
    then have "a = b" using Cons.prems(4) that by (meson distinct_map inj_onD)
    then show ?thesis by simp
  next
    case False
    then show ?thesis using entryLess_total by blast
  qed
  have sets: "set (x # xs) = set (y # ys')"
    using Cons.prems(3) ys by (metis set_mset_mset)
  have xy: "x = y"
  proof (rule ccontr)
    assume ne: "x \<noteq> y"
    have "y \<in> set xs" using sets ne by auto
    then have 1: "\<not> entryLess y x" using Cons.prems(1) by auto
    have "x \<in> set ys'" using sets ne by auto
    then have 2: "\<not> entryLess x y" using Cons.prems(2) ys by auto
    have "x \<in> set (x # xs)" "y \<in> set (x # xs)" using sets by auto
    from tot [OF this] show False using ne 1 2 by blast
  qed
  have "xs = ys'"
  proof (rule Cons.IH)
    show "sorted_wrt (\<lambda>a b. \<not> entryLess b a) xs" using Cons.prems(1) by simp
    show "sorted_wrt (\<lambda>a b. \<not> entryLess b a) ys'" using Cons.prems(2) ys by simp
    show "mset xs = mset ys'" using Cons.prems(3) ys xy by simp
    show "distinct (map (\<lambda>e. login (u' e)) xs)" using Cons.prems(4) by simp
  qed
  then show ?case using xy ys by simp
qed

lemma visited_same_map:
  assumes "mset visited = mset users" and "distinct (map fst users)"
  shows "distinct (map fst visited) \<and> map_of visited = map_of users"
proof -
  have "mset (map fst visited) = mset (map fst users)" using assms(1) by (metis mset_map)
  then have d: "distinct (map fst visited)"
    using assms(2) by (metis mset_eq_imp_distinct_iff)
  have "set visited = set users" using assms(1) by (metis set_mset_mset)
  then show ?thesis using d assms(2) by (simp add: map_of_inject_set)
qed

lemma countUsers_visited:
  assumes "mset visited = mset users" and "distinct (map fst users)"
  shows "mset (countUsers visited from to []) = mset (countUsers users from to [])"
proof -
  from visited_same_map [OF assms]
  have dv: "distinct (map fst visited)" and mv: "map_of visited = map_of users" by simp_all
  have d1: "distinct (map fst (countUsers visited from to []))"
    and d2: "distinct (map fst (countUsers users from to []))"
    by (simp_all add: distinct_countUsers)
  have "map_of (countUsers visited from to []) = map_of (countUsers users from to [])"
    by (rule ext) (simp add: map_of_countUsers [OF dv] map_of_countUsers [OF assms(2)] mv)
  then have "set (countUsers visited from to []) = set (countUsers users from to [])"
    using d1 d2 by (simp add: map_of_inject_set)
  moreover have "distinct (countUsers visited from to [])" "distinct (countUsers users from to [])"
    using d1 d2 by (simp_all add: distinct_map)
  ultimately show ?thesis by (simp add: set_eq_iff_mset_eq_distinct)
qed

lemma login_toSortOf:
  assumes "\<forall>(k, obj)\<in>set users. login obj = k" and "fst ` set timesByUser \<subseteq> fst ` set users"
  shows "map (\<lambda>e. login (u' e)) (toSortOf users timesByUser) = map fst timesByUser"
proof -
  have "login (lookupOr zeroUser users k) = k" if "(k, c) \<in> set timesByUser" for k c
  proof -
    from that assms(2) have "k \<in> fst ` set users" by force
    then have "(k, lookupOr zeroUser users k) \<in> set users" by (rule lookupOr_in_set)
    then show ?thesis using assms(1) by auto
  qed
  then show ?thesis by (auto simp: toSortOf_def)
qed

lemma run_toSort:
  assumes d: "distinct (map fst users)" and l: "\<forall>(k, obj)\<in>set users. login obj = k"
    and v: "mset visited = mset users"
    and t: "mset timesByUser = mset (countUsers visited from to [])"
    and s: "mset toSort = mset (toSortOf users timesByUser)"
  shows "mset toSort = mset (toSortOf users (countUsers users from to [])) \<and>
         distinct (map (\<lambda>e. login (u' e)) toSort)"
proof -
  have t': "mset timesByUser = mset (countUsers users from to [])"
    using t countUsers_visited [OF v d] by simp
  have "mset (toSortOf users timesByUser) = mset (toSortOf users (countUsers users from to []))"
    unfolding toSortOf_def using t' by (metis mset_map)
  then have s': "mset toSort = mset (toSortOf users (countUsers users from to []))"
    using s by simp
  have keys: "fst ` set (countUsers users from to []) \<subseteq> fst ` set users"
    using keys_countUsers [of users "from" "to" "[]"] by simp
  have "distinct (map fst (countUsers users from to []))"
    by (simp add: distinct_countUsers)
  then have "distinct (map (\<lambda>e. login (u' e)) (toSortOf users (countUsers users from to [])))"
    using login_toSortOf [OF l keys] by simp
  moreover have "mset (map (\<lambda>e. login (u' e)) toSort) =
      mset (map (\<lambda>e. login (u' e)) (toSortOf users (countUsers users from to [])))"
    using s' by (metis mset_map)
  ultimately have "distinct (map (\<lambda>e. login (u' e)) toSort)"
    by (metis mset_eq_imp_distinct_iff)
  then show ?thesis using s' by simp
qed

lemma run_output:
  assumes "distinct (map fst users)" and "\<forall>(k, obj)\<in>set users. login obj = k"
    and "formatContributorsRun users from to out"
  shows "out = formatContributors users from to"
  using assms(3)
proof cases
  case (run visited timesByUser toSort)
  from run_toSort [OF assms(1,2) run(2,3,4)]
  have m: "mset toSort = mset (toSortOf users (countUsers users from to []))"
    and dl: "distinct (map (\<lambda>e. login (u' e)) toSort)" by simp_all
  have "toSort = rankContributors users from to"
  proof (rule sorted_entries_unique [OF run(5) _ _ dl])
    show "sorted_wrt (\<lambda>a b. \<not> entryLess b a) (rankContributors users from to)"
      by (simp add: rankContributors_def sorted_sortSlice)
    show "mset toSort = mset (rankContributors users from to)"
      using m by (simp add: rankContributors_def mset_sortSlice)
  qed
  then show ?thesis using run(1) by (simp add: formatContributors_def)
qed

lemma formatContributors_is_run:
  "formatContributorsRun users from to (formatContributors users from to)"
  unfolding formatContributors_def rankContributors_def
  by (rule formatContributorsRun.run [where visited = users
        and timesByUser = "countUsers users from to []"])
     (simp_all add: mset_sortSlice sorted_sortSlice)

text \<open>
  C10. For a map whose keys are the logins of its values, any two runs of the formatter on
  the same map and range return the same text, whatever the order in which the maps are
  visited and whichever sorted permutation the sort returns.
\<close>

theorem formatContributors_deterministic:
  assumes "distinct (map fst users)" and "\<forall>(k, obj)\<in>set users. login obj = k"
    and "formatContributorsRun users from to out1"
    and "formatContributorsRun users from to out2"
  shows "out1 = out2"
  using run_output [OF assms(1,2,3)] run_output [OF assms(1,2,4)] by simp

text \<open>
  Two runs on the map of "bob" and "alice": the function as modelled, and a run that
  visits the map in the other order.
\<close>

theorem formatContributors_deterministic_witness:
  "distinct (map fst [(''bob'', bob), (''alice'', alice)]) \<and>
   login bob = ''bob'' \<and> login alice = ''alice'' \<and>
   formatContributorsRun [(''bob'', bob), (''alice'', alice)] 100 200
     (formatContributors [(''bob'', bob), (''alice'', alice)] 100 200) \<and>
   formatContributorsRun [(''bob'', bob), (''alice'', alice)] 100 200
     (renderBlock [\<lparr>u' = alice, count' = 2\<rparr>, \<lparr>u' = bob, count' = 2\<rparr>]) \<and>
   formatContributors [(''bob'', bob), (''alice'', alice)] 100 200 =
     renderBlock [\<lparr>u' = alice, count' = 2\<rparr>, \<lparr>u' = bob, count' = 2\<rparr>]"
proof -
  let ?U = "[(''bob'', bob), (''alice'', alice)]"
  have d: "distinct (map fst ?U)" by simp
  have l0: "login bob = ''bob'' \<and> login alice = ''alice''" by (simp add: alice_def bob_def)
  then have l: "\<forall>(k, obj)\<in>set ?U. login obj = k" by simp
  have r1: "formatContributorsRun ?U 100 200 (formatContributors ?U 100 200)"
    by (rule formatContributors_is_run)
  have r2: "formatContributorsRun ?U 100 200
     (renderBlock [\<lparr>u' = alice, count' = 2\<rparr>, \<lparr>u' = bob, count' = 2\<rparr>])"
    by (rule formatContributorsRun.run [where visited = "[(''alice'', alice), (''bob'', bob)]"
          and timesByUser = "[(''alice'', 2), (''bob'', 2)]"])
       (simp_all add: eval_defs numeral_2_eq_2)
  from formatContributors_deterministic [OF d l r1 r2] d l0 r1 r2 show ?thesis by blast
qed

section \<open>The admission pool\<close>

lemma running_update:
  assumes "i < length ps"
  shows "length (filter (\<lambda>p. p = Running) (ps[i := q])) + (if ps ! i = Running then 1 else 0) =
         length (filter (\<lambda>p. p = Running) ps) + (if q = Running then 1 else 0)"
  using assms
proof (induction ps arbitrary: i)
  case Nil
  then show ?case by simp
next
  case (Cons p ps)
  show ?case
  proof (cases i)
    case 0
    then show ?thesis by simp
  next
    case (Suc j)
    then have "j < length ps" using Cons.prems by simp
    from Cons.IH [OF this] show ?thesis using Suc by (simp split: if_splits)
  qed
qed

lemma poolStep_conserves:
  assumes "poolStep s s'"
  shows "rateLimit s' + running s' = rateLimit s + running s \<and> length (tasks s') = length (tasks s)"
  using assms
proof cases
  case (acquire i)
  then show ?thesis
    using running_update [of i "tasks s" Running] by (simp add: running_def)
next
  case (release i)
  then show ?thesis
    using running_update [of i "tasks s" Finished] by (simp add: running_def)
qed

lemma poolReachable_conserves:
  "poolReachable n s \<Longrightarrow> rateLimit s + running s = userRateLimit \<and> length (tasks s) = n"
proof (induction rule: poolReachable.induct)
  case start
  then show ?case by (simp add: poolStart_def running_def)
next
  case (step s s')
  then show ?case using poolStep_conserves [of s s'] by simp
qed

text \<open>A task that holds a slot can always give it back: the send of line 235 never blocks.\<close>

lemma release_enabled:
  "poolReachable n s \<Longrightarrow> i < length (tasks s) \<Longrightarrow> tasks s ! i = Running \<Longrightarrow> rateLimit s < userRateLimit"
proof -
  assume r: "poolReachable n s" and i: "i < length (tasks s)" and ri: "tasks s ! i = Running"
  have "tasks s ! i \<in> set (filter (\<lambda>p. p = Running) (tasks s))"
    using i ri nth_mem [OF i] by simp
  then have "0 < running s" unfolding running_def by (metis length_pos_if_in_set)
  then show ?thesis using poolReachable_conserves [OF r] by simp
qed

text \<open>
  C9. In every state that the tasks can reach, whatever their number and their
  interleaving, at most 20 lookups are running, and the free slots are the 20 less the
  running lookups: a lookup starts only by taking a slot and gives it back when it ends.
\<close>

theorem lookups_bounded:
  "poolReachable n s \<Longrightarrow> running s \<le> 20 \<and> rateLimit s = 20 - running s"
  using poolReachable_conserves [of n s] by (auto simp: userRateLimit_def)

text \<open>The theorem in the state reached by three tasks after two of them took a slot.\<close>

theorem lookups_bounded_witness:
  "poolReachable 3 \<lparr>rateLimit = 18, tasks = [Running, Waiting, Running]\<rparr> \<and>
   running \<lparr>rateLimit = 18, tasks = [Running, Waiting, Running]\<rparr> \<le> 20"
proof -
  have s0: "poolReachable 3 \<lparr>rateLimit = 20, tasks = [Waiting, Waiting, Waiting]\<rparr>"
    using poolReachable.start [of 3]
    by (simp add: poolStart_def userRateLimit_def numeral_3_eq_3)
  have "poolStep \<lparr>rateLimit = 20, tasks = [Waiting, Waiting, Waiting]\<rparr>
          \<lparr>rateLimit = 19, tasks = [Running, Waiting, Waiting]\<rparr>"
    using poolStep.acquire [of 0 "\<lparr>rateLimit = 20, tasks = [Waiting, Waiting, Waiting]\<rparr>"] by simp
  with s0 have s1: "poolReachable 3 \<lparr>rateLimit = 19, tasks = [Running, Waiting, Waiting]\<rparr>"
    by (rule poolReachable.step)
  have "poolStep \<lparr>rateLimit = 19, tasks = [Running, Waiting, Waiting]\<rparr>
          \<lparr>rateLimit = 18, tasks = [Running, Waiting, Running]\<rparr>"
    using poolStep.acquire [of 2 "\<lparr>rateLimit = 19, tasks = [Running, Waiting, Waiting]\<rparr>"] by simp
  with s1 have s2: "poolReachable 3 \<lparr>rateLimit = 18, tasks = [Running, Waiting, Running]\<rparr>"
    by (rule poolReachable.step)
  show ?thesis using s2 lookups_bounded [OF s2] by simp
qed

end
